theory Spec2Isabelle
  imports Main "HOL-Library.Word" "HOL-Library.Sublist"
begin

section \<open>The alias table and alias substitution of jsh (alias.c)\<close>

subsection \<open>C strings\<close>

text \<open>
  A C string is modelled by the list of its characters in front of the terminator.
  The library functions used by alias.c are modelled on that content:
  \<^item> \<open>strnlen s n\<close> is the length, at most \<open>n\<close>;
  \<^item> \<open>strncpy src n junk\<close> is the string that is read at \<open>dst\<close> after
    \<open>strncpy(dst, src, n)\<close>: \<open>src\<close> when it has fewer than \<open>n\<close> characters; otherwise
    its first \<open>n\<close> characters, behind which C writes no terminator, followed by \<open>junk\<close>,
    the bytes that stand in memory behind the \<open>n\<close> bytes up to the next zero byte;
  \<^item> \<open>strncmp a b n = 0\<close> holds when the first \<open>n\<close> characters agree (\<open>strncmp_eq\<close>),
    \<open>strcmp a b = 0\<close> when the strings are equal;
  \<^item> \<open>strstr haystack needle\<close> is the offset of the first occurrence of \<open>needle\<close>, and
    \<open>None\<close> for the null pointer. An empty needle occurs at offset 0 of every haystack.
\<close>

definition MAX_ALIAS_VAL_LENGTH :: nat where
  "MAX_ALIAS_VAL_LENGTH = 200"

definition MAX_ALIAS_KEY_LENGTH :: nat where
  "MAX_ALIAS_KEY_LENGTH = 50"

definition EXIT_SUCCESS :: int where
  "EXIT_SUCCESS = 0"

definition EXIT_FAILURE :: int where
  "EXIT_FAILURE = 1"

definition backslash :: char where
  "backslash = CHR 0x5C"

definition strnlen :: "string \<Rightarrow> nat \<Rightarrow> nat" where
  "strnlen s n = min (length s) n"

definition strncpy :: "string \<Rightarrow> nat \<Rightarrow> string \<Rightarrow> string" where
  "strncpy src n junk = (if length src < n then src else take n src @ junk)"

definition strncmp_eq :: "string \<Rightarrow> string \<Rightarrow> nat \<Rightarrow> bool" where
  "strncmp_eq a b n = (take n a = take n b)"

fun strstr :: "string \<Rightarrow> string \<Rightarrow> nat option" where
  "strstr [] needle = (if needle = [] then Some 0 else None)"
| "strstr (c # cs) needle =
     (if prefix needle (c # cs) then Some 0 else map_option Suc (strstr cs needle))"

text \<open>
  The character at an index of a C string: the terminator sits at index \<open>length s\<close>.
\<close>

definition char_at :: "string \<Rightarrow> nat \<Rightarrow> char" where
  "char_at s i = (if i < length s then s ! i else CHR 0x00)"

subsection \<open>The table\<close>

text \<open>
  \<open>struct alias\<close> is a node of a singly linked list from \<open>head\<close> to \<open>tail\<close>; the list
  of nodes is a HOL list. The globals of alias.c form the state. The two counters are C
  \<open>int\<close>s: 32-bit words, read by \<open>sint\<close>.
\<close>

record alias_rec =
  alias_key :: string
  alias_value :: string

record alias_state =
  aliases :: "alias_rec list"
  total_alias_val_length :: "32 word"
  nb_aliases :: "32 word"
  alias_key_changed :: bool

definition init_state :: alias_state where
  "init_state = \<lparr>aliases = [], total_alias_val_length = 0, nb_aliases = 0,
     alias_key_changed = False\<rparr>"

subsection \<open>resolvealiases\<close>

text \<open>
  \<open>is_valid_cmd\<close> belongs to the parser of jsh and is not part of alias.c: it is a
  parameter, called with the key, the context string and the offset of the match.
\<close>

type_synonym valid_cmd = "string \<Rightarrow> string \<Rightarrow> nat \<Rightarrow> bool"

text \<open>
  The two tests of \<open>is_valid_alias\<close>: the match at offset \<open>i\<close> is escaped when a
  backslash stands in front of it, and a key that starts with \<open>~\<close> is a built-in alias.
\<close>

definition escaped :: "string \<Rightarrow> nat \<Rightarrow> bool" where
  "escaped ctx i = (i > 0 \<and> char_at ctx (i - 1) = backslash)"

definition builtin :: "string \<Rightarrow> bool" where
  "builtin k = (case k of [] \<Rightarrow> False | c # _ \<Rightarrow> c = CHR ''~'')"

text \<open>
  \<open>is_valid_alias\<close> changes the context it is given when the match is escaped: it moves
  the text from the match on one place to the left, over the backslash. The model returns
  the context with the answer.
\<close>

definition is_valid_alias :: "valid_cmd \<Rightarrow> string \<Rightarrow> string \<Rightarrow> nat \<Rightarrow> bool \<times> string" where
  "is_valid_alias is_valid_cmd k ctx i =
     (if escaped ctx i then (False, take (i - 1) ctx @ drop i ctx)
      else if builtin k then (True, ctx)
      else (is_valid_cmd k ctx i, ctx))"

text \<open>
  What a call can end in, besides a return: a write through the null pointer that an
  unchecked \<open>malloc\<close> gave, or a write behind the end of the buffer. Either is undefined
  behaviour in C; the model stops there. A call that does not end at all is \<open>None\<close>.
\<close>

datatype fault = NullPointer | Overrun

text \<open>
  The inner loop of \<open>resolvealiases\<close>, for one alias with key \<open>k\<close> and value \<open>v\<close>:
  \<open>ret\<close> is the string in the buffer, \<open>cap\<close> the number of bytes of the buffer, and
  \<open>str\<close> the offset of the pointer \<open>str\<close>. \<open>p\<close> is the offset of the match. A valid
  match is replaced by the value: \<open>memmove\<close> puts the text behind the key and its
  terminator behind the place of the value, which needs one byte more than the new
  string is long, and \<open>memcpy\<close> puts the value in; the code does not look at the size of
  the buffer, so the write may run over its end. The scan goes on behind the value.
  Otherwise the scan goes on at \<open>p + strlen(key)\<close>, with \<open>p\<close> the offset that was
  computed before \<open>is_valid_alias\<close> ran. The loop has no exit when the key is empty,
  hence a partial function.
\<close>

partial_function (option) scan ::
  "valid_cmd \<Rightarrow> nat \<Rightarrow> string \<Rightarrow> string \<Rightarrow> string \<Rightarrow> nat \<Rightarrow> (fault + string) option" where
  "scan is_valid_cmd cap k v ret str =
     (case strstr (drop str ret) k of
        None \<Rightarrow> Some (Inr ret)
      | Some off \<Rightarrow>
          (let p = str + off in
           case is_valid_alias is_valid_cmd k ret p of
             (valid, ret') \<Rightarrow>
               if valid
               then (if cap < length (take p ret' @ v @ drop (p + length k) ret') + 1
                     then Some (Inl Overrun)
                     else scan is_valid_cmd cap k v
                            (take p ret' @ v @ drop (p + length k) ret') (p + length v))
               else scan is_valid_cmd cap k v ret' (p + length k)))"

declare scan.simps [code]

text \<open>The outer loop: one pass for each alias, in the order of the list.\<close>

fun resolve_from ::
  "valid_cmd \<Rightarrow> nat \<Rightarrow> alias_rec list \<Rightarrow> string \<Rightarrow> (fault + string) option" where
  "resolve_from is_valid_cmd cap [] ret = Some (Inr ret)"
| "resolve_from is_valid_cmd cap (cur # rest) ret =
     (case scan is_valid_cmd cap (alias_key cur) (alias_value cur) ret 0 of
        None \<Rightarrow> None
      | Some (Inl f) \<Rightarrow> Some (Inl f)
      | Some (Inr ret') \<Rightarrow> resolve_from is_valid_cmd cap rest ret')"

text \<open>
  \<open>maxsize\<close> is the C \<open>int\<close> of that name. The outcome of \<open>malloc(maxsize)\<close> is a
  parameter \<open>m\<close>: \<open>None\<close> for the null pointer, \<open>Some slack\<close> for a block that can take
  \<open>slack\<close> bytes more than were asked for (0 is all that C promises; an allocator that
  rounds sizes up gives more). A negative \<open>maxsize\<close> becomes a size that no \<open>malloc\<close>
  grants. \<open>buffer_size\<close> is the number of bytes of the block, if there is one.
\<close>

definition maxsize :: "alias_state \<Rightarrow> string \<Rightarrow> 32 word" where
  "maxsize st s = of_nat (length s) + total_alias_val_length st"

definition buffer_size :: "nat option \<Rightarrow> alias_state \<Rightarrow> string \<Rightarrow> nat option" where
  "buffer_size m st s =
     (if sint (maxsize st s) < 0 then None
      else (case m of None \<Rightarrow> None | Some slack \<Rightarrow> Some (nat (sint (maxsize st s)) + slack)))"

text \<open>
  \<open>resolvealiases\<close>: \<open>strcpy\<close> writes the input and its terminator into the block,
  unchecked, and the passes follow.
\<close>

definition resolvealiases ::
  "nat option \<Rightarrow> valid_cmd \<Rightarrow> alias_state \<Rightarrow> string \<Rightarrow> (fault + string) option" where
  "resolvealiases m is_valid_cmd st s =
     (case buffer_size m st s of
        None \<Rightarrow> Some (Inl NullPointer)
      | Some cap \<Rightarrow>
          if cap < length s + 1 then Some (Inl Overrun)
          else resolve_from is_valid_cmd cap (aliases st) s)"

subsection \<open>alias_exists, unalias, alias, get_all_alias_keys\<close>

fun key_listed :: "string \<Rightarrow> alias_rec list \<Rightarrow> bool" where
  "key_listed k [] = False"
| "key_listed k (curAlias # rest) = (if alias_key curAlias = k then True else key_listed k rest)"

definition alias_exists :: "string \<Rightarrow> alias_state \<Rightarrow> bool" where
  "alias_exists k st = key_listed k (aliases st)"

text \<open>
  \<open>unlink\<close> is the search of \<open>unalias\<close>: the first node whose key agrees with the
  argument on \<open>MAX_ALIAS_KEY_LENGTH\<close> characters, and the list without it.
\<close>

fun unlink :: "string \<Rightarrow> alias_rec list \<Rightarrow> (alias_rec \<times> alias_rec list) option" where
  "unlink k [] = None"
| "unlink k (cur # rest) =
     (if strncmp_eq (alias_key cur) k MAX_ALIAS_KEY_LENGTH then Some (cur, rest)
      else (case unlink k rest of
              None \<Rightarrow> None
            | Some (found, rest') \<Rightarrow> Some (found, cur # rest')))"

text \<open>
  \<open>unalias\<close> returns its status, the lines it prints with \<open>printerr\<close>, and the state.
\<close>

definition unalias :: "string \<Rightarrow> alias_state \<Rightarrow> int \<times> string list \<times> alias_state" where
  "unalias k st =
     (case unlink k (aliases st) of
        Some (cur, rest) \<Rightarrow>
          (EXIT_SUCCESS, [],
           st\<lparr>aliases := rest,
              total_alias_val_length :=
                total_alias_val_length st - of_nat (strnlen (alias_value cur) MAX_ALIAS_VAL_LENGTH),
              nb_aliases := nb_aliases st - 1,
              alias_key_changed := True\<rparr>)
      | None \<Rightarrow> (EXIT_FAILURE, [''unalias: no such alias key: '' @ k], st))"

text \<open>
  The outcomes of the three calls of \<open>malloc\<close> in one call of \<open>alias\<close>: the buffer of
  \<open>resolvealiases\<close> (as above), the node (\<open>False\<close> for the null pointer), and the
  block of the key (\<open>None\<close> for the null pointer, otherwise the bytes that stand behind
  the block in memory).
\<close>

record mallocs =
  buffer_slack :: "nat option"
  node_ok :: bool
  key_junk :: "string option"

text \<open>
  The function \<open>alias\<close> of alias.c is \<open>alias_cmd\<close> here. The value is resolved
  first. No result of \<open>malloc\<close> is checked: the node is written through at once
  (\<open>new->next = NULL\<close>), and so is the block of the key (\<open>strncpy\<close>). The node gets
  the copy of the key made by \<open>strncpy\<close> with \<open>keylength + 1\<close> characters, and the
  resolved value itself (\<open>new->value = val\<close>); \<open>vallength\<close> is used for the counter
  only. The status of the inner \<open>unalias\<close> is dropped, as in the code.
\<close>

definition alias_cmd ::
  "mallocs \<Rightarrow> valid_cmd \<Rightarrow> string \<Rightarrow> string \<Rightarrow> alias_state \<Rightarrow> (fault + int \<times> alias_state) option" where
  "alias_cmd a is_valid_cmd k v st =
     (case resolvealiases (buffer_slack a) is_valid_cmd st v of
        None \<Rightarrow> None
      | Some (Inl f) \<Rightarrow> Some (Inl f)
      | Some (Inr val) \<Rightarrow>
          if \<not> node_ok a then Some (Inl NullPointer)
          else (case key_junk a of
             None \<Rightarrow> Some (Inl NullPointer)
           | Some junk \<Rightarrow>
              (let vallength = strnlen val MAX_ALIAS_VAL_LENGTH;
                   keylength = strnlen k MAX_ALIAS_KEY_LENGTH;
                   new = \<lparr>alias_key = strncpy k (keylength + 1) junk, alias_value = val\<rparr>;
                   st1 = (if alias_exists k st then snd (snd (unalias k st)) else st)
               in Some (Inr (EXIT_SUCCESS,
                    st1\<lparr>aliases := aliases st1 @ [new],
                        total_alias_val_length := total_alias_val_length st1 + of_nat vallength,
                        nb_aliases := nb_aliases st1 + 1,
                        alias_key_changed := True\<rparr>)))))"


subsection \<open>Sequences of calls\<close>

text \<open>
  A call of \<open>alias\<close>, with the outcomes of its allocations, or a call of \<open>unalias\<close>.
  A sequence stops at the first call that does not return.
\<close>

datatype command = Define mallocs string string | Remove string

fun run_command :: "valid_cmd \<Rightarrow> command \<Rightarrow> alias_state \<Rightarrow> (fault + alias_state) option" where
  "run_command is_valid_cmd (Define a k v) st =
     (case alias_cmd a is_valid_cmd k v st of
        None \<Rightarrow> None
      | Some (Inl f) \<Rightarrow> Some (Inl f)
      | Some (Inr (rc, st')) \<Rightarrow> Some (Inr st'))"
| "run_command is_valid_cmd (Remove k) st = Some (Inr (snd (snd (unalias k st))))"

fun run :: "valid_cmd \<Rightarrow> command list \<Rightarrow> alias_state \<Rightarrow> (fault + alias_state) option" where
  "run is_valid_cmd [] st = Some (Inr st)"
| "run is_valid_cmd (c # cs) st =
     (case run_command is_valid_cmd c st of
        None \<Rightarrow> None
      | Some (Inl f) \<Rightarrow> Some (Inl f)
      | Some (Inr st') \<Rightarrow> run is_valid_cmd cs st')"

subsection \<open>Notions of the specification\<close>

text \<open>The sum of the lengths of the values in the table, each counted up to the bound.\<close>

definition value_length_sum :: "alias_rec list \<Rightarrow> nat" where
  "value_length_sum l = sum_list (map (\<lambda>cur. strnlen (alias_value cur) MAX_ALIAS_VAL_LENGTH) l)"

text \<open>The counter agrees with the sum.\<close>

definition counter_exact :: "alias_state \<Rightarrow> bool" where
  "counter_exact st = (total_alias_val_length st = of_nat (value_length_sum (aliases st)))"


text \<open>A string with all its backslashes left out.\<close>

definition without_backslashes :: "string \<Rightarrow> string" where
  "without_backslashes s = filter (\<lambda>c. c \<noteq> backslash) s"


definition always_valid :: valid_cmd where
  "always_valid k ctx i = True"

text \<open>Tables whose keys are not empty, and tables without a built-in key.\<close>

fun nonempty_keys :: "alias_rec list \<Rightarrow> bool" where
  "nonempty_keys [] = True"
| "nonempty_keys (cur # rest) = (alias_key cur \<noteq> [] \<and> nonempty_keys rest)"

fun plain_keys :: "alias_rec list \<Rightarrow> bool" where
  "plain_keys [] = True"
| "plain_keys (cur # rest) = (\<not> builtin (alias_key cur) \<and> plain_keys rest)"

text \<open>
  No built-in key of the table occurs in the string \<open>s\<close>, backslashes left out of
  both.
\<close>

fun builtin_keys_absent :: "alias_rec list \<Rightarrow> string \<Rightarrow> bool" where
  "builtin_keys_absent [] s = True"
| "builtin_keys_absent (cur # rest) s =
     ((builtin (alias_key cur)
         \<longrightarrow> strstr (without_backslashes s) (without_backslashes (alias_key cur)) = None)
      \<and> builtin_keys_absent rest s)"

text \<open>Some entry of the list agrees with \<open>k\<close> on the first 50 characters.\<close>

fun prefix_listed :: "string \<Rightarrow> alias_rec list \<Rightarrow> bool" where
  "prefix_listed k [] = False"
| "prefix_listed k (cur # rest) =
     (if strncmp_eq (alias_key cur) k MAX_ALIAS_KEY_LENGTH then True else prefix_listed k rest)"

fun short_keys :: "alias_rec list \<Rightarrow> bool" where
  "short_keys [] = True"
| "short_keys (cur # rest) = (length (alias_key cur) \<le> MAX_ALIAS_KEY_LENGTH \<and> short_keys rest)"

subsection \<open>Example allocations and tables\<close>

text \<open>
  Allocations that succeed: with blocks of just the size asked for, and with a buffer
  that has one byte to spare. Behind the block of the key stands a zero byte. And an
  allocation in which \<open>malloc\<close> gives no node.
\<close>

definition exact_fit :: mallocs where
  "exact_fit = \<lparr>buffer_slack = Some 0, node_ok = True, key_junk = Some []\<rparr>"

definition spare_byte :: mallocs where
  "spare_byte = \<lparr>buffer_slack = Some 1, node_ok = True, key_junk = Some []\<rparr>"


text \<open>An allocation with a byte that is not zero behind the block of the key.\<close>

definition junk_behind_key :: mallocs where
  "junk_behind_key = \<lparr>buffer_slack = Some 1, node_ok = True, key_junk = Some ''!''\<rparr>"

text \<open>
  The states after \<open>alias ~ /home/jo\<close>, after \<open>alias ls "ls --color"\<close> and after an
  alias with an empty key, each from the empty table, and the state after the first two.
\<close>

definition home_state :: alias_state where
  "home_state = \<lparr>aliases = [\<lparr>alias_key = ''~'', alias_value = ''/home/jo''\<rparr>],
     total_alias_val_length = 8, nb_aliases = 1, alias_key_changed = True\<rparr>"

definition ls_state :: alias_state where
  "ls_state = \<lparr>aliases = [\<lparr>alias_key = ''ls'', alias_value = ''ls --color''\<rparr>],
     total_alias_val_length = 10, nb_aliases = 1, alias_key_changed = True\<rparr>"




definition cleared_state :: alias_state where
  "cleared_state = \<lparr>aliases = [], total_alias_val_length = 0, nb_aliases = 0,
     alias_key_changed = True\<rparr>"

text \<open>
  The state after an alias with a key of 50 characters.
\<close>

definition key50_state :: alias_state where
  "key50_state = \<lparr>aliases = [\<lparr>alias_key = replicate 50 (CHR ''k''), alias_value = ''v''\<rparr>],
     total_alias_val_length = 1, nb_aliases = 1, alias_key_changed = True\<rparr>"

text \<open>
  The states after one and after two calls of \<open>alias\<close> with the same key of 60
  characters.
\<close>

definition key60_once :: alias_state where
  "key60_once = \<lparr>aliases = [\<lparr>alias_key = replicate 51 (CHR ''k''), alias_value = ''a''\<rparr>],
     total_alias_val_length = 1, nb_aliases = 1, alias_key_changed = True\<rparr>"

definition key60_twice :: alias_state where
  "key60_twice = \<lparr>aliases = [\<lparr>alias_key = replicate 51 (CHR ''k''), alias_value = ''a''\<rparr>,
                             \<lparr>alias_key = replicate 51 (CHR ''k''), alias_value = ''b''\<rparr>],
     total_alias_val_length = 2, nb_aliases = 2, alias_key_changed = True\<rparr>"

section \<open>Properties\<close>

subsection \<open>strstr and the scan loop\<close>

lemma strstr_Some:
  "strstr h n = Some off \<Longrightarrow> prefix n (drop off h) \<and> off + length n \<le> length h"
proof (induction h arbitrary: off)
  case Nil
  then show ?case by (simp split: if_splits)
next
  case (Cons c cs)
  show ?case
  proof (cases "prefix n (c # cs)")
    case True
    with Cons.prems have "off = 0" by simp
    with True prefix_length_le [of n "c # cs"] show ?thesis by simp
  next
    case False
    with Cons.prems obtain off' where o: "strstr cs n = Some off'" "off = Suc off'"
      by auto
    from Cons.IH [OF o(1)] o(2) show ?thesis by simp
  qed
qed

lemma strstr_in_buffer:
  assumes "strstr (drop str ret) k = Some off" and "k \<noteq> []"
  shows "prefix k (drop (str + off) ret)" and "str + off + length k \<le> length ret"
proof -
  from strstr_Some [OF assms(1)] have a: "prefix k (drop off (drop str ret))"
    and b: "off + length k \<le> length (drop str ret)" by simp_all
  from a show "prefix k (drop (str + off) ret)" by (simp add: add.commute)
  from assms(2) have "0 < length k" by simp
  with b show "str + off + length k \<le> length ret" by (simp del: length_greater_0_conv)
qed

lemma strstr_empty_needle: "strstr h [] = Some 0"
  by (cases h) simp_all


lemma is_valid_alias_cases:
  "is_valid_alias vc k ret p =
     (if escaped ret p then (False, take (p - 1) ret @ drop p ret)
      else (builtin k \<or> vc k ret p, ret))"
  by (simp add: is_valid_alias_def)

text \<open>The steps of the loop.\<close>

lemma scan_stop:
  "strstr (drop str ret) k = None \<Longrightarrow> scan vc cap k v ret str = Some (Inr ret)"
  by (subst scan.simps) simp

lemma scan_step_escaped:
  assumes "strstr (drop str ret) k = Some off" and "escaped ret (str + off)"
  shows "scan vc cap k v ret str =
         scan vc cap k v (take (str + off - 1) ret @ drop (str + off) ret) (str + off + length k)"
  using assms by (subst scan.simps) (simp add: is_valid_alias_cases Let_def)

lemma scan_step_valid:
  assumes "strstr (drop str ret) k = Some off"
    and "\<not> escaped ret (str + off)" and "builtin k \<or> vc k ret (str + off)"
  shows "scan vc cap k v ret str =
         (if cap < length (take (str + off) ret @ v @ drop (str + off + length k) ret) + 1
          then Some (Inl Overrun)
          else scan vc cap k v (take (str + off) ret @ v @ drop (str + off + length k) ret)
                 (str + off + length v))"
  using assms by (subst scan.simps) (simp add: is_valid_alias_cases Let_def)

lemma scan_step_invalid:
  assumes "strstr (drop str ret) k = Some off"
    and "\<not> escaped ret (str + off)" and "\<not> (builtin k \<or> vc k ret (str + off))"
  shows "scan vc cap k v ret str = scan vc cap k v ret (str + off + length k)"
  using assms by (subst scan.simps) (simp add: is_valid_alias_cases Let_def)

text \<open>
  The loop for a key that is not empty returns or writes behind the end of the buffer,
  and what holds of its outcome can be shown step by step: \<open>Q ret str out\<close> relates the buffer and the offset at the head of the
  loop to the outcome.
\<close>

lemma scan_rule:
  assumes k: "k \<noteq> []"
    and stop: "\<And>ret str. strstr (drop str ret) k = None \<Longrightarrow> Q ret str (Inr ret)"
    and esc: "\<And>ret str p out. str \<le> p \<Longrightarrow> p + length k \<le> length ret \<Longrightarrow> prefix k (drop p ret)
        \<Longrightarrow> escaped ret p \<Longrightarrow> Q (take (p - 1) ret @ drop p ret) (p + length k) out
        \<Longrightarrow> Q ret str out"
    and sub: "\<And>ret str p out. str \<le> p \<Longrightarrow> p + length k \<le> length ret \<Longrightarrow> prefix k (drop p ret)
        \<Longrightarrow> \<not> escaped ret p \<Longrightarrow> builtin k \<or> vc k ret p
        \<Longrightarrow> \<not> cap < length (take p ret @ v @ drop (p + length k) ret) + 1
        \<Longrightarrow> Q (take p ret @ v @ drop (p + length k) ret) (p + length v) out
        \<Longrightarrow> Q ret str out"
    and over: "\<And>ret str p. str \<le> p \<Longrightarrow> p + length k \<le> length ret \<Longrightarrow> prefix k (drop p ret)
        \<Longrightarrow> \<not> escaped ret p \<Longrightarrow> builtin k \<or> vc k ret p
        \<Longrightarrow> cap < length (take p ret @ v @ drop (p + length k) ret) + 1
        \<Longrightarrow> Q ret str (Inl Overrun)"
    and skip: "\<And>ret str p out. str \<le> p \<Longrightarrow> p + length k \<le> length ret \<Longrightarrow> prefix k (drop p ret)
        \<Longrightarrow> \<not> escaped ret p \<Longrightarrow> \<not> (builtin k \<or> vc k ret p)
        \<Longrightarrow> Q ret (p + length k) out
        \<Longrightarrow> Q ret str out"
  shows "\<exists>out. scan vc cap k v ret str = Some out \<and> Q ret str out"
proof (induction "length ret - str" arbitrary: ret str rule: less_induct)
  case less
  show ?case
  proof (cases "strstr (drop str ret) k")
    case None
    from scan_stop [OF None] stop [OF None] show ?thesis by simp
  next
    case (Some off)
    define p where "p = str + off"
    from strstr_in_buffer [OF Some k] have pre: "prefix k (drop p ret)"
      and len: "p + length k \<le> length ret" by (simp_all add: p_def)
    have sp: "str \<le> p" by (simp add: p_def)
    from k have kpos: "0 < length k" by simp
    consider (e) "escaped ret p" | (s) "\<not> escaped ret p" "builtin k \<or> vc k ret p"
      | (n) "\<not> escaped ret p" "\<not> (builtin k \<or> vc k ret p)" by blast
    then show ?thesis
    proof cases
      case e
      let ?ret = "take (p - 1) ret @ drop p ret"
      from e have "0 < p" by (simp add: escaped_def)
      with len have l: "length ?ret = length ret - 1" by simp
      have unf: "scan vc cap k v ret str = scan vc cap k v ?ret (p + length k)"
        using scan_step_escaped [where vc = vc, OF Some] e by (simp add: p_def)
      have "length ?ret - (p + length k) < length ret - str"
        using l len sp kpos by arith
      from less [OF this] obtain out where "scan vc cap k v ?ret (p + length k) = Some out"
        and "Q ?ret (p + length k) out" by blast
      with unf esc [OF sp len pre e] show ?thesis by simp
    next
      case s
      let ?ret = "take p ret @ v @ drop (p + length k) ret"
      show ?thesis
      proof (cases "cap < length ?ret + 1")
        case True
        have "scan vc cap k v ret str = Some (Inl Overrun)"
          using scan_step_valid [where vc = vc and v = v and cap = cap, OF Some] s True
          by (simp add: p_def)
        with over [OF sp len pre s True] show ?thesis by simp
      next
        case False
        have l: "length ?ret = length ret - length k + length v" using len by simp
        have unf: "scan vc cap k v ret str = scan vc cap k v ?ret (p + length v)"
          using scan_step_valid [where vc = vc and v = v and cap = cap, OF Some] s False
          by (simp add: p_def)
        have "length ?ret - (p + length v) < length ret - str"
          using l len sp kpos by arith
        from less [OF this] obtain out where "scan vc cap k v ?ret (p + length v) = Some out"
          and "Q ?ret (p + length v) out" by blast
        with unf sub [OF sp len pre s False] show ?thesis by simp
      qed
    next
      case n
      have unf: "scan vc cap k v ret str = scan vc cap k v ret (p + length k)"
        using scan_step_invalid [where vc = vc, OF Some] n by (simp add: p_def)
      have "length ret - (p + length k) < length ret - str"
        using len sp kpos by arith
      from less [OF this] obtain out where "scan vc cap k v ret (p + length k) = Some out"
        and "Q ret (p + length k) out" by blast
      with unf skip [OF sp len pre n] show ?thesis by simp
    qed
  qed
qed

lemma scan_ends: "k \<noteq> [] \<Longrightarrow> \<exists>out. scan vc cap k v ret str = Some out"
  using scan_rule [where Q = "\<lambda>ret str out. True" and k = k and vc = vc and v = v and cap = cap]
  by simp

text \<open>
  With an empty key the loop does not return: \<open>strstr\<close> finds the key at every offset,
  and the loop goes on for ever unless the buffer is filled up by values.
\<close>

lemma scan_empty_key_aux:
  assumes "scan vc cap k v ret str = Some out"
  shows "k \<noteq> [] \<or> out = Inl Overrun"
proof (rule scan.raw_induct [where P = "\<lambda>vc cap k v ret str out. k \<noteq> [] \<or> out = Inl Overrun",
      OF _ assms], goal_cases)
  case (1 scan' vc cap k v ret str out)
  show ?case
  proof (cases "k = []")
    case False
    then show ?thesis by simp
  next
    case True
    with 1(2) have "out = Inl Overrun \<or> (\<exists>ret' str'. scan' vc cap [] v ret' str' = Some out)"
      by (auto simp: strstr_empty_needle Let_def split: prod.splits if_splits)
    with 1(1) show ?thesis by auto
  qed
qed

lemma scan_empty_key: "scan vc cap [] v ret str = None \<or> scan vc cap [] v ret str = Some (Inl Overrun)"
  using scan_empty_key_aux [of vc cap "[]" v ret str] by (cases "scan vc cap [] v ret str") auto



subsection \<open>Bigger blocks\<close>

text \<open>
  A call that returns with some block returns the same with any bigger block: the size
  of the block decides only whether a write runs over its end.
\<close>

lemma scan_more_room_aux:
  assumes "scan vc cap k v ret str = Some out"
  shows "\<forall>r cap'. out = Inr r \<longrightarrow> cap \<le> cap' \<longrightarrow> scan vc cap' k v ret str = Some (Inr r)"
proof (rule scan.raw_induct [where P = "\<lambda>vc cap k v ret str out.
      \<forall>r cap'. out = Inr r \<longrightarrow> cap \<le> cap' \<longrightarrow> scan vc cap' k v ret str = Some (Inr r)",
      OF _ assms], goal_cases)
  case (1 scan' vc cap k v ret str out)
  show ?case
  proof (intro allI impI)
    fix r cap'
    assume o: "out = Inr r" and c: "cap \<le> cap'"
    show "scan vc cap' k v ret str = Some (Inr r)"
    proof (cases "strstr (drop str ret) k")
      case None
      with 1(2) o show ?thesis by (subst scan.simps) simp
    next
      case (Some off)
      obtain valid ret' where iv: "is_valid_alias vc k ret (str + off) = (valid, ret')"
        by (cases "is_valid_alias vc k ret (str + off)")
      show ?thesis
      proof (cases valid)
        case False
        with 1(2) Some iv o have "scan' vc cap k v ret' (str + off + length k) = Some (Inr r)"
          by (simp add: Let_def)
        from 1(1) [OF this] c have "scan vc cap' k v ret' (str + off + length k) = Some (Inr r)"
          by simp
        with Some iv False show ?thesis by (subst scan.simps) (simp add: Let_def)
      next
        case True
        let ?new = "take (str + off) ret' @ v @ drop (str + off + length k) ret'"
        from 1(2) Some iv True o have fit: "\<not> cap < length ?new + 1"
          and s: "scan' vc cap k v ?new (str + off + length v) = Some (Inr r)"
          by (auto simp: Let_def split: if_splits)
        from 1(1) [OF s] c have "scan vc cap' k v ?new (str + off + length v) = Some (Inr r)"
          by simp
        moreover from fit c have "\<not> cap' < length ?new + 1" by simp
        ultimately show ?thesis using Some iv True
          by (subst scan.simps) (simp add: Let_def)
      qed
    qed
  qed
qed

lemma scan_more_room:
  "scan vc cap k v ret str = Some (Inr r) \<Longrightarrow> cap \<le> cap' \<Longrightarrow>
   scan vc cap' k v ret str = Some (Inr r)"
  using scan_more_room_aux by blast

lemma resolve_from_more_room:
  "resolve_from vc cap l ret = Some (Inr r) \<Longrightarrow> cap \<le> cap' \<Longrightarrow>
   resolve_from vc cap' l ret = Some (Inr r)"
proof (induction l arbitrary: ret)
  case Nil
  then show ?case by simp
next
  case (Cons cur rest)
  from Cons.prems(1) obtain t
    where t: "scan vc cap (alias_key cur) (alias_value cur) ret 0 = Some (Inr t)"
      and r: "resolve_from vc cap rest t = Some (Inr r)"
    by (auto split: option.splits sum.splits)
  from scan_more_room [OF t Cons.prems(2)] Cons.IH [OF r Cons.prems(2)] show ?case by simp
qed

lemma resolvealiases_more_room:
  assumes "resolvealiases (Some slack) vc st s = Some (Inr r)" and "slack \<le> slack'"
  shows "resolvealiases (Some slack') vc st s = Some (Inr r)"
proof -
  let ?n = "nat (sint (maxsize st s))"
  from assms(1) have pos: "\<not> sint (maxsize st s) < 0"
    and fit: "\<not> ?n + slack < length s + 1"
    and res: "resolve_from vc (?n + slack) (aliases st) s = Some (Inr r)"
    by (auto simp: resolvealiases_def buffer_size_def split: if_splits)
  from assms(2) have le: "?n + slack \<le> ?n + slack'" by simp
  from resolve_from_more_room [OF res le] pos fit assms(2) show ?thesis
    by (simp add: resolvealiases_def buffer_size_def)
qed

lemma alias_cmd_more_room:
  assumes "alias_cmd a vc k v st = Some (Inr x)"
    and "buffer_slack a = Some slack" and "slack \<le> slack'"
  shows "alias_cmd (a\<lparr>buffer_slack := Some slack'\<rparr>) vc k v st = Some (Inr x)"
proof -
  from assms(1,2) obtain val where v: "resolvealiases (Some slack) vc st v = Some (Inr val)"
    by (auto simp: alias_cmd_def split: option.splits sum.splits)
  from resolvealiases_more_room [OF v assms(3)] v assms(1,2) show ?thesis
    by (auto simp: alias_cmd_def split: if_splits option.splits)
qed

subsection \<open>The size of the buffer\<close>

text \<open>
  C1. The claim: the string that \<open>resolvealiases\<close> returns is never longer than
  \<open>maxsize\<close>, the length of the input plus \<open>total_alias_val_length\<close>, which is the size
  of the buffer that is allocated. The code does not keep to it: after \<open>alias ~ /home/jo\<close>
  the input \<open>cp ~/a ~/b\<close> has 10 characters and \<open>maxsize\<close> is 18, but the result has 24
  characters, whatever the validity predicate: the key occurs twice and the value is
  counted once. The write runs over the end of the block unless \<open>malloc\<close> gave at least
  7 bytes more than it was asked for.
\<close>

theorem resolvealiases_overruns_maxsize:
  "alias_cmd spare_byte vc ''~'' ''/home/jo'' init_state = Some (Inr (EXIT_SUCCESS, home_state))
   \<and> sint (maxsize home_state ''cp ~/a ~/b'') = 18
   \<and> resolvealiases (Some 0) vc home_state ''cp ~/a ~/b'' = Some (Inl Overrun)
   \<and> resolvealiases (Some 6) vc home_state ''cp ~/a ~/b'' = Some (Inl Overrun)
   \<and> resolvealiases (Some 7) vc home_state ''cp ~/a ~/b'' = Some (Inr ''cp /home/jo/a /home/jo/b'')
   \<and> length ''cp /home/jo/a /home/jo/b'' = 24"
proof -
  have "alias_cmd spare_byte vc ''~'' ''/home/jo'' init_state = Some (Inr (EXIT_SUCCESS, home_state))"
    by code_simp
  moreover have "sint (maxsize home_state ''cp ~/a ~/b'') = 18"
    by (simp add: maxsize_def home_state_def)
  moreover have "resolvealiases (Some 0) vc home_state ''cp ~/a ~/b'' = Some (Inl Overrun)"
    by code_simp
  moreover have "resolvealiases (Some 6) vc home_state ''cp ~/a ~/b'' = Some (Inl Overrun)"
    by code_simp
  moreover have "resolvealiases (Some 7) vc home_state ''cp ~/a ~/b''
      = Some (Inr ''cp /home/jo/a /home/jo/b'')"
    by code_simp
  ultimately show ?thesis by simp
qed

subsection \<open>Truncation\<close>

text \<open>
  C2. The claim: the entry made by \<open>alias\<close> holds the first 50 characters of the key and
  the first 200 characters of the resolved value. The code does not truncate: for a key
  of 60 and a value of 250 characters on the empty table, the entry holds the 51
  characters that \<open>strncpy\<close> copies, with no terminator behind them, so that the key
  reads on into whatever stands behind its block, and all 250 characters of the value,
  while the counter grows by 200.
\<close>

theorem alias_cmd_stores_untruncated:
  "alias_cmd spare_byte vc (replicate 60 (CHR ''k'')) (replicate 250 (CHR ''x'')) init_state
     = Some (Inr (EXIT_SUCCESS,
         \<lparr>aliases = [\<lparr>alias_key = replicate 51 (CHR ''k''),
                      alias_value = replicate 250 (CHR ''x'')\<rparr>],
          total_alias_val_length = 200, nb_aliases = 1, alias_key_changed = True\<rparr>))
   \<and> alias_cmd junk_behind_key vc (replicate 60 (CHR ''k'')) (replicate 250 (CHR ''x'')) init_state
     = Some (Inr (EXIT_SUCCESS,
         \<lparr>aliases = [\<lparr>alias_key = replicate 51 (CHR ''k'') @ ''!'',
                      alias_value = replicate 250 (CHR ''x'')\<rparr>],
          total_alias_val_length = 200, nb_aliases = 1, alias_key_changed = True\<rparr>))"
  by code_simp

subsection \<open>Escaped matches\<close>

text \<open>
  C3. The claim: an escaped match loses its backslash, is not replaced, and the scan goes
  on right behind the key. The code goes on one character further, at the old offset of
  the end of the key (lemma \<open>scan_step_escaped\<close>): with the alias \<open>~\<close> for
  \<open>/home/jo\<close>, a backslash followed by \<open>~~\<close> becomes \<open>~~\<close>, although the second
  \<open>~\<close>, at offset 1 right behind the first, is a match that \<open>is_valid_alias\<close>
  accepts. The example of the claim holds: a backslash followed by \<open>ls\<close> becomes
  \<open>ls\<close>.
\<close>

theorem scan_skips_after_escape:
  "resolvealiases (Some 0) vc home_state (backslash # ''~~'') = Some (Inr ''~~'')
   \<and> strstr (drop 1 ''~~'') ''~'' = Some 0
   \<and> is_valid_alias vc ''~'' ''~~'' 1 = (True, ''~~'')
   \<and> resolvealiases (Some 0) vc ls_state (backslash # ''ls'') = Some (Inr ''ls'')"
  by code_simp

subsection \<open>A validity predicate that rejects every match\<close>









text \<open>
  No built-in key occurs in the input when the table has no built-in key, and when the
  input has no \<open>~\<close>.
\<close>

lemma plain_keys_absent: "plain_keys l \<Longrightarrow> builtin_keys_absent l s"
  by (induction l) simp_all

lemma strstr_tilde:
  assumes "builtin k" and "strstr h (without_backslashes k) = Some off"
  shows "CHR ''~'' \<in> set h"
proof -
  from assms(1) obtain k' where k: "k = CHR ''~'' # k'" by (cases k) (auto simp: builtin_def)
  then have "without_backslashes k = CHR ''~'' # without_backslashes k'"
    by (simp add: without_backslashes_def backslash_def)
  with strstr_Some [OF assms(2)] have "prefix (CHR ''~'' # without_backslashes k') (drop off h)"
    by simp
  then have "CHR ''~'' \<in> set (drop off h)" by (auto simp: prefix_def)
  then show ?thesis by (rule in_set_dropD)
qed

lemma no_tilde_absent:
  assumes "CHR ''~'' \<notin> set s"
  shows "builtin_keys_absent l s"
proof (induction l)
  case Nil
  show ?case by simp
next
  case (Cons cur rest)
  have "builtin (alias_key cur)
      \<longrightarrow> strstr (without_backslashes s) (without_backslashes (alias_key cur)) = None"
  proof
    assume b: "builtin (alias_key cur)"
    show "strstr (without_backslashes s) (without_backslashes (alias_key cur)) = None"
    proof (rule ccontr)
      assume "strstr (without_backslashes s) (without_backslashes (alias_key cur)) \<noteq> None"
      then obtain off
        where "strstr (without_backslashes s) (without_backslashes (alias_key cur)) = Some off"
        by auto
      from strstr_tilde [OF b this] assms show False by (simp add: without_backslashes_def)
    qed
  qed
  with Cons show ?case by simp
qed




subsection \<open>Valid matches\<close>

lemma take_take_append: "n \<le> m \<Longrightarrow> m \<le> length xs \<Longrightarrow> take n (take m xs @ ys) = take n xs"
  by (simp add: min_absorb1)

lemma take_eq_mono: "take m r = take m t \<Longrightarrow> n \<le> m \<Longrightarrow> take n r = take n t"
  by (metis min.absorb1 take_take)

text \<open>
  A pass leaves the text in front of \<open>str\<close> as it is, but for the character right in
  front of \<open>str\<close>, which goes when it is a backslash and the key follows it.
\<close>

lemma scan_keeps_prefix:
  assumes k: "k \<noteq> []"
  shows "\<exists>out. scan vc cap k v ret str = Some out
           \<and> (case out of Inl f \<Rightarrow> f = Overrun | Inr r \<Rightarrow> take (str - 1) r = take (str - 1) ret)"
proof (rule scan_rule [where Q = "\<lambda>ret str out.
      case out of Inl f \<Rightarrow> f = Overrun | Inr r \<Rightarrow> take (str - 1) r = take (str - 1) ret", OF k],
    goal_cases)
  case (1 ret str)
  show ?case by simp
next
  case (2 ret str p out)
  show ?case
  proof (cases out)
    case (Inl f)
    with 2(5) show ?thesis by simp
  next
    case (Inr r)
    with 2(5) have e: "take (p + length k - 1) r = take (p + length k - 1) (take (p - 1) ret @ drop p ret)"
      by simp
    from 2(1) have "str - 1 \<le> p + length k - 1" by arith
    from take_eq_mono [OF e this]
    have "take (str - 1) r = take (str - 1) (take (p - 1) ret @ drop p ret)" .
    also from 2(1) 2(2) have "\<dots> = take (str - 1) ret"
      by (intro take_take_append) arith+
    finally show ?thesis using Inr by simp
  qed
next
  case (3 ret str p out)
  show ?case
  proof (cases out)
    case (Inl f)
    with 3(7) show ?thesis by simp
  next
    case (Inr r)
    with 3(7) have e: "take (p + length v - 1) r
        = take (p + length v - 1) (take p ret @ v @ drop (p + length k) ret)" by simp
    from 3(1) have "str - 1 \<le> p + length v - 1" by arith
    from take_eq_mono [OF e this]
    have "take (str - 1) r = take (str - 1) (take p ret @ v @ drop (p + length k) ret)" .
    also from 3(1) 3(2) have "\<dots> = take (str - 1) ret"
      by (intro take_take_append) arith+
    finally show ?thesis using Inr by simp
  qed
next
  case (4 ret str p)
  show ?case by simp
next
  case (5 ret str p out)
  show ?case
  proof (cases out)
    case (Inl f)
    with 5(6) show ?thesis by simp
  next
    case (Inr r)
    with 5(6) have e: "take (p + length k - 1) r = take (p + length k - 1) ret" by simp
    from 5(1) have "str - 1 \<le> p + length k - 1" by arith
    from take_eq_mono [OF e this] Inr show ?thesis by simp
  qed
qed

lemma resolve_from_ends: "nonempty_keys l \<Longrightarrow> \<exists>out. resolve_from vc cap l s = Some out"
proof (induction l arbitrary: s)
  case Nil
  show ?case by simp
next
  case (Cons cur rest)
  then have "alias_key cur \<noteq> []" and ne: "nonempty_keys rest" by simp_all
  from scan_ends [OF this(1)] obtain out
    where o: "scan vc cap (alias_key cur) (alias_value cur) s 0 = Some out" by blast
  show ?case
  proof (cases out)
    case (Inl f)
    with o show ?thesis by simp
  next
    case (Inr r)
    with o Cons.IH [OF ne, of r] show ?thesis by simp
  qed
qed

lemma resolvealiases_ends:
  "nonempty_keys (aliases st) \<Longrightarrow> \<exists>out. resolvealiases m vc st s = Some out"
  using resolve_from_ends [of "aliases st" vc _ s]
  by (simp add: resolvealiases_def split: option.splits)

text \<open>
  C5. When the match at \<open>str + off\<close> is valid, the value is put in the place of the key
  and the loop goes on with \<open>str\<close> right behind the value (unless the write runs over
  the end of the buffer). For a key that is not empty the loop does not go on for ever:
  it returns or it writes behind the end of the buffer; and when it returns, the text
  up to the last character of the value stands in the result as it was put in: no later
  match of this pass begins in it. For a table whose keys are not empty, a call of
  \<open>resolvealiases\<close> likewise returns or ends in a fault. With the alias \<open>ls\<close> for
  \<open>ls --color\<close>, a predicate that accepts \<open>ls\<close> at offset 0 and any block that
  \<open>malloc\<close> returns, the input \<open>ls\<close> is resolved to \<open>ls --color\<close>.
\<close>

theorem scan_resumes_behind_value:
  "(strstr (drop str ret) k = Some off \<and> \<not> escaped ret (str + off)
      \<and> (builtin k \<or> vc k ret (str + off))
    \<longrightarrow> scan vc cap k v ret str =
          (if cap < length (take (str + off) ret @ v @ drop (str + off + length k) ret) + 1
           then Some (Inl Overrun)
           else scan vc cap k v (take (str + off) ret @ v @ drop (str + off + length k) ret)
                  (str + off + length v)))
   \<and> (k \<noteq> [] \<and> strstr (drop str ret) k = Some off \<and> \<not> escaped ret (str + off)
      \<and> (builtin k \<or> vc k ret (str + off))
      \<and> length (take (str + off) ret @ v @ drop (str + off + length k) ret) + 1 \<le> cap
    \<longrightarrow> (\<exists>out. scan vc cap k v ret str = Some out
          \<and> (case out of Inl f \<Rightarrow> f = Overrun
              | Inr r \<Rightarrow> take (str + off + length v - 1) r
                         = take (str + off + length v - 1) (take (str + off) ret @ v))))
   \<and> (nonempty_keys (aliases st) \<longrightarrow> (\<exists>out. resolvealiases m vc st s = Some out))
   \<and> (vc ''ls'' ''ls'' 0
    \<longrightarrow> alias_cmd spare_byte vc ''ls'' ''ls --color'' init_state = Some (Inr (EXIT_SUCCESS, ls_state))
        \<and> resolvealiases (Some slack) vc ls_state ''ls'' = Some (Inr ''ls --color''))"
proof (intro conjI impI)
  assume a: "strstr (drop str ret) k = Some off \<and> \<not> escaped ret (str + off)
      \<and> (builtin k \<or> vc k ret (str + off))"
  then have f: "strstr (drop str ret) k = Some off"
    and ne: "\<not> escaped ret (str + off)" and ok: "builtin k \<or> vc k ret (str + off)" by simp_all
  from scan_step_valid [where vc = vc and v = v and cap = cap, OF f ne ok]
  show "scan vc cap k v ret str =
          (if cap < length (take (str + off) ret @ v @ drop (str + off + length k) ret) + 1
           then Some (Inl Overrun)
           else scan vc cap k v (take (str + off) ret @ v @ drop (str + off + length k) ret)
                  (str + off + length v))" .
next
  let ?p = "str + off"
  let ?ret = "take ?p ret @ v @ drop (?p + length k) ret"
  assume a: "k \<noteq> [] \<and> strstr (drop str ret) k = Some off \<and> \<not> escaped ret (str + off)
      \<and> (builtin k \<or> vc k ret (str + off)) \<and> length ?ret + 1 \<le> cap"
  then have k: "k \<noteq> []" and f: "strstr (drop str ret) k = Some off"
    and ne: "\<not> escaped ret ?p" and ok: "builtin k \<or> vc k ret ?p"
    and fit: "length ?ret + 1 \<le> cap" by simp_all
  from scan_step_valid [where vc = vc and v = v and cap = cap, OF f ne ok] fit
  have unf: "scan vc cap k v ret str = scan vc cap k v ?ret (?p + length v)" by simp
  from strstr_in_buffer(2) [OF f k] have len: "?p \<le> length ret" by simp
  from scan_keeps_prefix [OF k, of vc cap v ?ret "?p + length v"] obtain out
    where o: "scan vc cap k v ?ret (?p + length v) = Some out"
      and q: "case out of Inl f \<Rightarrow> f = Overrun
              | Inr r \<Rightarrow> take (?p + length v - 1) r = take (?p + length v - 1) ?ret" by blast
  from len have "take (?p + length v - 1) ?ret = take (?p + length v - 1) (take ?p ret @ v)"
    by (simp add: min_def)
  with q have "case out of Inl f \<Rightarrow> f = Overrun
      | Inr r \<Rightarrow> take (?p + length v - 1) r = take (?p + length v - 1) (take ?p ret @ v)"
    by (cases out) simp_all
  with o unf
  show "\<exists>out. scan vc cap k v ret str = Some out
          \<and> (case out of Inl f \<Rightarrow> f = Overrun
              | Inr r \<Rightarrow> take (?p + length v - 1) r
                         = take (?p + length v - 1) (take ?p ret @ v))"
    by simp
next
  assume "nonempty_keys (aliases st)"
  then show "\<exists>out. resolvealiases m vc st s = Some out" by (rule resolvealiases_ends)
next
  show "alias_cmd spare_byte vc ''ls'' ''ls --color'' init_state = Some (Inr (EXIT_SUCCESS, ls_state))"
    by code_simp
next
  assume v: "vc ''ls'' ''ls'' 0"
  have f: "strstr (drop 0 ''ls'') ''ls'' = Some 0" by simp
  have ne: "\<not> escaped ''ls'' (0 + 0)" by (simp add: escaped_def)
  from v have ok: "builtin ''ls'' \<or> vc ''ls'' ''ls'' (0 + 0)" by simp
  have "scan vc (12 + slack) ''ls'' ''ls --color'' ''ls'' 0
        = scan vc (12 + slack) ''ls'' ''ls --color'' ''ls --color'' (length ''ls --color'')"
    using scan_step_valid [where vc = vc and v = "''ls --color''" and cap = "12 + slack", OF f ne ok]
    by simp
  also have "\<dots> = Some (Inr ''ls --color'')" by (rule scan_stop) simp
  finally have "resolve_from vc (12 + slack) (aliases ls_state) ''ls'' = Some (Inr ''ls --color'')"
    by (simp add: ls_state_def)
  moreover have "buffer_size (Some slack) ls_state ''ls'' = Some (12 + slack)"
    by (simp add: buffer_size_def maxsize_def ls_state_def)
  ultimately show "resolvealiases (Some slack) vc ls_state ''ls'' = Some (Inr ''ls --color'')"
    by (simp add: resolvealiases_def)
qed

theorem scan_resumes_behind_value_witness:
  "(strstr (drop 0 ''ls;ls'') ''ls'' = Some 0 \<and> \<not> escaped ''ls;ls'' (0 + 0)
      \<and> (builtin ''ls'' \<or> always_valid ''ls'' ''ls;ls'' (0 + 0)))
   \<and> ''ls'' \<noteq> []
   \<and> length (take (0 + 0) ''ls;ls'' @ ''ls --color'' @ drop (0 + 0 + length ''ls'') ''ls;ls'') + 1
       \<le> (22::nat)
   \<and> scan always_valid 22 ''ls'' ''ls --color'' ''ls;ls'' 0 = Some (Inr ''ls --color;ls --color'')
   \<and> scan always_valid 15 ''ls'' ''ls --color'' ''ls;ls'' 0 = Some (Inl Overrun)
   \<and> nonempty_keys (aliases ls_state)
   \<and> always_valid ''ls'' ''ls'' 0
   \<and> resolvealiases (Some 0) always_valid ls_state ''ls'' = Some (Inr ''ls --color'')"
proof -
  have h: "strstr (drop 0 ''ls;ls'') ''ls'' = Some 0 \<and> \<not> escaped ''ls;ls'' (0 + 0)
      \<and> (builtin ''ls'' \<or> always_valid ''ls'' ''ls;ls'' (0 + 0))"
    by (simp add: escaped_def always_valid_def)
  have l: "length (take (0 + 0) ''ls;ls'' @ ''ls --color'' @ drop (0 + 0 + length ''ls'') ''ls;ls'') + 1
       \<le> (22::nat)" by simp
  have n: "nonempty_keys (aliases ls_state)" by (simp add: ls_state_def)
  have t: "always_valid ''ls'' ''ls'' 0" by (simp add: always_valid_def)
  have e: "scan always_valid 22 ''ls'' ''ls --color'' ''ls;ls'' 0 = Some (Inr ''ls --color;ls --color'')"
    by code_simp
  have o: "scan always_valid 15 ''ls'' ''ls --color'' ''ls;ls'' 0 = Some (Inl Overrun)"
    by code_simp
  from scan_resumes_behind_value [of 0 "''ls;ls''" "''ls''" 0 always_valid 22 "''ls --color''"
      ls_state "Some 0" "''ls''" 0] t
  have "resolvealiases (Some 0) always_valid ls_state ''ls'' = Some (Inr ''ls --color'')" by blast
  with h l n t e o show ?thesis by blast
qed

subsection \<open>The counter of value lengths\<close>

lemma value_length_sum_snoc:
  "value_length_sum (l @ [new]) = value_length_sum l + strnlen (alias_value new) MAX_ALIAS_VAL_LENGTH"
  by (simp add: value_length_sum_def)

lemma value_length_sum_unlink:
  "unlink k l = Some (cur, rest) \<Longrightarrow>
   value_length_sum l = value_length_sum rest + strnlen (alias_value cur) MAX_ALIAS_VAL_LENGTH"
proof (induction l arbitrary: rest)
  case Nil
  then show ?case by simp
next
  case (Cons a l)
  show ?case
  proof (cases "strncmp_eq (alias_key a) k MAX_ALIAS_KEY_LENGTH")
    case True
    with Cons.prems show ?thesis by (simp add: value_length_sum_def)
  next
    case False
    with Cons.prems obtain rest' where u: "unlink k l = Some (cur, rest')" and r: "rest = a # rest'"
      by (auto split: option.splits)
    from Cons.IH [OF u] r show ?thesis by (simp add: value_length_sum_def)
  qed
qed

lemma unalias_counter_exact: "counter_exact st \<Longrightarrow> counter_exact (snd (snd (unalias k st)))"
proof (cases "unlink k (aliases st)")
  case None
  assume "counter_exact st"
  with None show ?thesis by (simp add: unalias_def)
next
  case (Some a)
  assume c: "counter_exact st"
  obtain cur rest where a: "a = (cur, rest)" by (cases a)
  from value_length_sum_unlink [OF Some [unfolded a]] c Some a
  show ?thesis by (simp add: unalias_def counter_exact_def)
qed

text \<open>What a call of \<open>alias\<close> that returns has done.\<close>

lemma alias_cmd_Some:
  "alias_cmd a vc k v st = Some (Inr (rc, st')) \<Longrightarrow>
   \<exists>val junk. resolvealiases (buffer_slack a) vc st v = Some (Inr val)
     \<and> node_ok a \<and> key_junk a = Some junk \<and> rc = EXIT_SUCCESS \<and>
     st' = (let st1 = (if alias_exists k st then snd (snd (unalias k st)) else st)
            in st1\<lparr>aliases := aliases st1 @
                    [\<lparr>alias_key = strncpy k (strnlen k MAX_ALIAS_KEY_LENGTH + 1) junk,
                      alias_value = val\<rparr>],
                  total_alias_val_length :=
                    total_alias_val_length st1 + of_nat (strnlen val MAX_ALIAS_VAL_LENGTH),
                  nb_aliases := nb_aliases st1 + 1,
                  alias_key_changed := True\<rparr>)"
  by (auto simp: alias_cmd_def Let_def split: option.splits sum.splits if_splits)

lemma alias_cmd_counter_exact:
  assumes "alias_cmd a vc k v st = Some (Inr (rc, st'))" and "counter_exact st"
  shows "counter_exact st'"
proof -
  let ?st1 = "if alias_exists k st then snd (snd (unalias k st)) else st"
  from assms(2) have "counter_exact ?st1" by (simp add: unalias_counter_exact)
  with alias_cmd_Some [OF assms(1)] show ?thesis
    by (auto simp: counter_exact_def Let_def value_length_sum_snoc)
qed

text \<open>
  As long as every call returns, the counter is the sum of the lengths of the values in
  the table, each counted up to 200 characters.
\<close>

lemma run_counter_exact:
  "run vc cmds st = Some (Inr st') \<Longrightarrow> counter_exact st \<Longrightarrow> counter_exact st'"
proof (induction cmds arbitrary: st)
  case Nil
  then show ?case by simp
next
  case (Cons c cs)
  from Cons.prems(1) obtain st1 where s: "run_command vc c st = Some (Inr st1)"
    and r: "run vc cs st1 = Some (Inr st')"
    by (auto split: option.splits sum.splits)
  have "counter_exact st1"
  proof (cases c)
    case (Define a k v)
    with s obtain rc where "alias_cmd a vc k v st = Some (Inr (rc, st1))"
      by (auto split: option.splits sum.splits)
    from alias_cmd_counter_exact [OF this Cons.prems(2)] show ?thesis .
  next
    case (Remove k)
    with s Cons.prems(2) show ?thesis by (auto simp: unalias_counter_exact)
  qed
  from Cons.IH [OF r this] show ?case .
qed

text \<open>
  C7. The claim: after every sequence of calls of \<open>alias\<close> and \<open>unalias\<close> the counter is
  the sum of the lengths of the values in the table. The code does not keep to it,
  because \<open>resolvealiases\<close> writes behind the end of its buffer. On the empty table the
  buffer for a value of 24 characters has 24 bytes, and the terminator is written
  behind it when the block has no byte to spare: \<open>alias\<close> stores a value whose
  terminator is not its own, and the sequence has no defined state. The same holds
  when a key occurs twice in the value. For the sequences in which every call returns,
  the claim holds, as shown above.
\<close>

theorem counter_breaks_on_overrun:
  "sint (maxsize init_state (replicate 24 (CHR ''v''))) = 24
   \<and> alias_cmd exact_fit vc ''a'' (replicate 24 (CHR ''v'')) init_state = Some (Inl Overrun)
   \<and> run vc [Define exact_fit ''a'' (replicate 24 (CHR ''v'')), Remove ''a''] init_state
       = Some (Inl Overrun)
   \<and> run vc [Define spare_byte ''~'' ''/home/jo'', Define spare_byte ''x'' ''~ ~ ~''] init_state
       = Some (Inl Overrun)"
  by code_simp

subsection \<open>The changed flag\<close>








subsection \<open>Removing a key that is not in the table\<close>

lemma unlink_None: "(unlink k l = None) = (\<not> prefix_listed k l)"
  by (induction l) (auto split: option.splits)

lemma strncmp_eq_short:
  "length a \<le> n \<Longrightarrow> length b \<le> n \<Longrightarrow> strncmp_eq a b n = (a = b)"
  by (simp add: strncmp_eq_def)

lemma prefix_listed_short:
  "length k \<le> MAX_ALIAS_KEY_LENGTH \<Longrightarrow> short_keys l \<Longrightarrow> prefix_listed k l = key_listed k l"
  by (induction l) (auto simp: strncmp_eq_short)

lemma unalias_not_listed:
  "\<not> prefix_listed k (aliases st) \<Longrightarrow>
   unalias k st = (EXIT_FAILURE, [''unalias: no such alias key: '' @ k], st)"
  using unlink_None [of k "aliases st"] by (simp add: unalias_def)

text \<open>
  C9, as amended. When no key in the table agrees with \<open>k\<close> on the first 50
  characters, \<open>unalias\<close> returns \<open>EXIT_FAILURE\<close>, prints the message with the key, and
  leaves the state as it was. When \<open>k\<close> and the keys in the table have at most 50
  characters, that is the case for every \<open>k\<close> that is not a key of the table.
\<close>

theorem unalias_no_such_alias:
  "(\<not> prefix_listed k (aliases st)
      \<longrightarrow> unalias k st = (EXIT_FAILURE, [''unalias: no such alias key: '' @ k], st))
   \<and> (length k \<le> MAX_ALIAS_KEY_LENGTH \<and> short_keys (aliases st) \<and> \<not> alias_exists k st
      \<longrightarrow> unalias k st = (EXIT_FAILURE, [''unalias: no such alias key: '' @ k], st))"
proof (intro conjI impI)
  assume "\<not> prefix_listed k (aliases st)"
  then show "unalias k st = (EXIT_FAILURE, [''unalias: no such alias key: '' @ k], st)"
    by (rule unalias_not_listed)
next
  assume a: "length k \<le> MAX_ALIAS_KEY_LENGTH \<and> short_keys (aliases st) \<and> \<not> alias_exists k st"
  then have "prefix_listed k (aliases st) = key_listed k (aliases st)"
    by (simp add: prefix_listed_short)
  with a have "\<not> prefix_listed k (aliases st)" by (simp add: alias_exists_def)
  then show "unalias k st = (EXIT_FAILURE, [''unalias: no such alias key: '' @ k], st)"
    by (rule unalias_not_listed)
qed

theorem unalias_no_such_alias_witness:
  "\<not> prefix_listed ''ll'' (aliases ls_state)
   \<and> length ''ll'' \<le> MAX_ALIAS_KEY_LENGTH \<and> short_keys (aliases ls_state)
   \<and> \<not> alias_exists ''ll'' ls_state
   \<and> unalias ''ll'' ls_state = (EXIT_FAILURE, [''unalias: no such alias key: ll''], ls_state)"
proof -
  have a: "\<not> prefix_listed ''ll'' (aliases ls_state)" by code_simp
  have b: "length ''ll'' \<le> MAX_ALIAS_KEY_LENGTH \<and> short_keys (aliases ls_state)
      \<and> \<not> alias_exists ''ll'' ls_state" by code_simp
  from unalias_no_such_alias [of "''ll''" ls_state] a b show ?thesis by simp
qed

text \<open>
  C9 as stated, for every key that is not in the table, fails: a key of 51 characters
  is not in the table that holds its first 50 characters as a key, and \<open>unalias\<close>
  succeeds on it and removes that entry.
\<close>

theorem unalias_longer_key_succeeds:
  "alias_cmd spare_byte always_valid (replicate 50 (CHR ''k'')) ''v'' init_state
     = Some (Inr (EXIT_SUCCESS, key50_state))
   \<and> \<not> alias_exists (replicate 51 (CHR ''k'')) key50_state
   \<and> unalias (replicate 51 (CHR ''k'')) key50_state = (EXIT_SUCCESS, [], cleared_state)"
  by code_simp

subsection \<open>The status of alias\<close>




subsection \<open>Defining a key twice\<close>

lemma strncpy_short: "length k \<le> n \<Longrightarrow> strncpy k (strnlen k n + 1) junk = k"
  by (simp add: strncpy_def strnlen_def)

lemma key_listed_set: "key_listed k l = (k \<in> set (map alias_key l))"
  by (induction l) auto

lemma unlink_short:
  assumes "length k \<le> MAX_ALIAS_KEY_LENGTH" and "short_keys l" and "distinct (map alias_key l)"
    and "unlink k l = Some (cur, rest)"
  shows "alias_key cur = k \<and> k \<notin> set (map alias_key rest) \<and> distinct (map alias_key rest)
         \<and> short_keys rest \<and> Suc (length rest) = length l
         \<and> set (map alias_key rest) \<subseteq> set (map alias_key l)"
  using assms(2-4)
proof (induction l arbitrary: rest)
  case Nil
  then show ?case by simp
next
  case (Cons a l)
  from Cons.prems(1) have la: "length (alias_key a) \<le> MAX_ALIAS_KEY_LENGTH" and sk: "short_keys l"
    by simp_all
  from Cons.prems(2) have na: "alias_key a \<notin> set (map alias_key l)" and d: "distinct (map alias_key l)"
    by simp_all
  show ?case
  proof (cases "strncmp_eq (alias_key a) k MAX_ALIAS_KEY_LENGTH")
    case True
    with la assms(1) have "alias_key a = k" by (simp add: strncmp_eq_short)
    with True Cons.prems(3) na d sk show ?thesis by auto
  next
    case False
    with la assms(1) have ne: "alias_key a \<noteq> k" by (simp add: strncmp_eq_short)
    from False Cons.prems(3) obtain rest' where u: "unlink k l = Some (cur, rest')"
      and r: "rest = a # rest'" by (auto split: option.splits)
    from Cons.IH [OF sk d u] r ne na la show ?thesis by auto
  qed
qed

lemma unlink_last:
  assumes "\<not> prefix_listed k l" and "strncmp_eq (alias_key new) k MAX_ALIAS_KEY_LENGTH"
  shows "unlink k (l @ [new]) = Some (new, l)"
  using assms by (induction l) (auto split: if_splits)

lemma unlink_keys:
  "unlink k l = Some (cur, rest) \<Longrightarrow>
   set (map alias_key l) = insert (alias_key cur) (set (map alias_key rest))"
proof (induction l arbitrary: rest)
  case Nil
  then show ?case by simp
next
  case (Cons a l)
  show ?case
  proof (cases "strncmp_eq (alias_key a) k MAX_ALIAS_KEY_LENGTH")
    case True
    with Cons.prems show ?thesis by auto
  next
    case False
    with Cons.prems obtain rest' where u: "unlink k l = Some (cur, rest')"
      and r: "rest = a # rest'" by (auto split: option.splits)
    from Cons.IH [OF u] r show ?thesis by auto
  qed
qed

text \<open>
  What one call of \<open>alias\<close> that returns does to a table with distinct keys of at most
  50 characters, for a key of at most 50 characters: the entries with other keys stay,
  in their order, and the new entry stands last.
\<close>

lemma alias_cmd_short_key:
  assumes k: "length k \<le> MAX_ALIAS_KEY_LENGTH"
    and sk: "short_keys (aliases st)" and d: "distinct (map alias_key (aliases st))"
    and a: "alias_cmd al vc k v st = Some (Inr (rc, st'))"
  shows "\<exists>base val. resolvealiases (buffer_slack al) vc st v = Some (Inr val)
           \<and> aliases st' = base @ [\<lparr>alias_key = k, alias_value = val\<rparr>]
           \<and> k \<notin> set (map alias_key base) \<and> distinct (map alias_key base) \<and> short_keys base
           \<and> set (map alias_key base) = set (map alias_key (aliases st)) - {k}"
proof -
  from alias_cmd_Some [OF a] obtain val junk
    where v: "resolvealiases (buffer_slack al) vc st v = Some (Inr val)"
    and st': "st' = (let st1 = (if alias_exists k st then snd (snd (unalias k st)) else st)
            in st1\<lparr>aliases := aliases st1 @
                    [\<lparr>alias_key = strncpy k (strnlen k MAX_ALIAS_KEY_LENGTH + 1) junk,
                      alias_value = val\<rparr>],
                  total_alias_val_length :=
                    total_alias_val_length st1 + of_nat (strnlen val MAX_ALIAS_VAL_LENGTH),
                  nb_aliases := nb_aliases st1 + 1,
                  alias_key_changed := True\<rparr>)" by blast
  show ?thesis
  proof (cases "alias_exists k st")
    case False
    then have "k \<notin> set (map alias_key (aliases st))"
      by (simp add: alias_exists_def key_listed_set)
    with False st' v sk d strncpy_short [OF k] show ?thesis by (simp add: Let_def)
  next
    case True
    then have "prefix_listed k (aliases st)"
      using prefix_listed_short [OF k sk] by (simp add: alias_exists_def)
    with unlink_None [of k "aliases st"] obtain cur rest
      where u: "unlink k (aliases st) = Some (cur, rest)" by (cases "unlink k (aliases st)") auto
    from unlink_short [OF k sk d u]
    have r: "alias_key cur = k" "k \<notin> set (map alias_key rest)" "distinct (map alias_key rest)"
      "short_keys rest" by simp_all
    from unlink_keys [OF u] r(1,2)
    have "set (map alias_key rest) = set (map alias_key (aliases st)) - {k}" by auto
    moreover from True st' u strncpy_short [OF k]
    have "aliases st' = rest @ [\<lparr>alias_key = k, alias_value = val\<rparr>]"
      by (simp add: Let_def unalias_def)
    ultimately show ?thesis using v r by blast
  qed
qed

text \<open>
  Two calls of \<open>alias\<close> that return, with the same key of at most 50 characters, on a
  table with distinct keys of at most 50 characters: the second call replaces the entry
  of the first, and the number of entries stays.
\<close>

lemma alias_cmd_twice_short_key:
  assumes k: "length k \<le> MAX_ALIAS_KEY_LENGTH"
    and sk: "short_keys (aliases st)" and d: "distinct (map alias_key (aliases st))"
    and a1: "alias_cmd al1 vc k v1 st = Some (Inr (rc1, s1))"
    and a2: "alias_cmd al2 vc k v2 s1 = Some (Inr (rc2, s2))"
  shows "\<exists>base val1 val2. resolvealiases (buffer_slack al2) vc s1 v2 = Some (Inr val2)
           \<and> aliases s1 = base @ [\<lparr>alias_key = k, alias_value = val1\<rparr>]
           \<and> aliases s2 = base @ [\<lparr>alias_key = k, alias_value = val2\<rparr>]
           \<and> k \<notin> set (map alias_key base)
           \<and> nb_aliases s2 = nb_aliases s1"
proof -
  from alias_cmd_short_key [OF k sk d a1] obtain base val1
    where s1: "aliases s1 = base @ [\<lparr>alias_key = k, alias_value = val1\<rparr>]"
      and nk: "k \<notin> set (map alias_key base)" and sb: "short_keys base" by blast
  from nk have "\<not> key_listed k base" by (simp add: key_listed_set)
  with prefix_listed_short [OF k sb] have "\<not> prefix_listed k base" by simp
  then have u: "unlink k (aliases s1) = Some (\<lparr>alias_key = k, alias_value = val1\<rparr>, base)"
    unfolding s1 by (rule unlink_last) (simp add: strncmp_eq_def)
  have e: "alias_exists k s1" by (simp add: alias_exists_def key_listed_set s1)
  from alias_cmd_Some [OF a2] obtain val2 junk
    where v: "resolvealiases (buffer_slack al2) vc s1 v2 = Some (Inr val2)"
    and s2: "s2 = (let st1 = (if alias_exists k s1 then snd (snd (unalias k s1)) else s1)
            in st1\<lparr>aliases := aliases st1 @
                    [\<lparr>alias_key = strncpy k (strnlen k MAX_ALIAS_KEY_LENGTH + 1) junk,
                      alias_value = val2\<rparr>],
                  total_alias_val_length :=
                    total_alias_val_length st1 + of_nat (strnlen val2 MAX_ALIAS_VAL_LENGTH),
                  nb_aliases := nb_aliases st1 + 1,
                  alias_key_changed := True\<rparr>)" by blast
  from s2 e u strncpy_short [OF k]
  have "aliases s2 = base @ [\<lparr>alias_key = k, alias_value = val2\<rparr>]"
    and "nb_aliases s2 = nb_aliases s1"
    by (simp_all add: Let_def unalias_def)
  with v s1 nk show ?thesis by blast
qed

text \<open>
  C6. The claim: after two calls of \<open>alias\<close> with the same key the table holds one
  entry for it and as many entries as after the first call. The code does not keep to
  it for a key of more than 50 characters: \<open>alias_exists\<close> compares the whole key with
  the copy that was cut, finds nothing, and the second call adds a second entry with the
  same key. For keys of at most 50 characters the claim holds, as shown above.
\<close>

theorem alias_cmd_twice_long_key:
  "alias_cmd spare_byte vc (replicate 60 (CHR ''k'')) ''a'' init_state
     = Some (Inr (EXIT_SUCCESS, key60_once))
   \<and> alias_exists (replicate 60 (CHR ''k'')) key60_once = False
   \<and> alias_cmd spare_byte vc (replicate 60 (CHR ''k'')) ''b'' key60_once
     = Some (Inr (EXIT_SUCCESS, key60_twice))
   \<and> map alias_key (aliases key60_twice) = [replicate 51 (CHR ''k''), replicate 51 (CHR ''k'')]
   \<and> nb_aliases key60_once = 1 \<and> nb_aliases key60_twice = 2"
  by code_simp

end
